theory Spec2Isabelle
  imports Main
begin

section \<open>The fetch-classify-paginate loop of script.js\<close>

text \<open>
  The development embeds \<^verbatim>\<open>getAccessToken\<close> and \<^verbatim>\<open>fetchPosts\<close> of
  \<^verbatim>\<open>src/script.js\<close>. Everything the JavaScript does to the outside world (status bar
  updates, the two kinds of HTTP request, the \<^verbatim>\<open>window.confirm\<close> prompt, the
  \<^verbatim>\<open>setTimeout\<close> delay) is appended to an event log that is threaded through the
  functions; everything the outside world answers is read from an environment.

  Strings are \<^typ>\<open>string\<close>. A property that may be \<^verbatim>\<open>undefined\<close> or
  \<^verbatim>\<open>null\<close> is an \<^typ>\<open>'a option\<close>; optional chaining \<^verbatim>\<open>a?.b\<close> is
  \<^const>\<open>Option.bind\<close>. An exception is a value of type \<open>error\<close>.
\<close>

subsection \<open>Listing items\<close>

text \<open>
  The part of a listing item that the code reads: \<^verbatim>\<open>post.url\<close>,
  \<^verbatim>\<open>post.permalink\<close>, \<^verbatim>\<open>post.title\<close> and the nested
  \<^verbatim>\<open>post.preview.images[0].{source.url, variants.gif.source.url}\<close>.
\<close>

record source_obj =
  source_url :: "string option"

record gif_obj =
  gif_source :: "source_obj option"

record variants_obj =
  gif :: "gif_obj option"

record image_obj =
  source :: "source_obj option"
  variants :: "variants_obj option"

record preview_obj =
  images :: "image_obj list option"

record post =
  url :: "string option"
  permalink :: string
  title :: string
  preview :: "preview_obj option"

datatype error =
    Error string       \<comment> \<open>\<^verbatim>\<open>throw new Error(data.error)\<close>\<close>
  | TypeError string   \<comment> \<open>a rejected \<^verbatim>\<open>fetch\<close>, or a method call on \<^verbatim>\<open>undefined\<close>\<close>

fun message :: "error \<Rightarrow> string" where
  "message (Error m) = m"
| "message (TypeError m) = m"

subsection \<open>String helpers\<close>

text \<open>
  \<^verbatim>\<open>String.prototype.toLowerCase\<close> on the ASCII letters; every other character is
  left as it is. (No character outside \<^verbatim>\<open>A-Z\<close> is lowered by JavaScript to one of
  the letters of the four extensions, so the suffix tests below do not depend on the rest of
  the Unicode case mapping.)
\<close>

definition toLowerChar :: "char \<Rightarrow> char" where
  "toLowerChar c =
     (case map_of (zip ''ABCDEFGHIJKLMNOPQRSTUVWXYZ'' ''abcdefghijklmnopqrstuvwxyz'') c of
        Some d \<Rightarrow> d
      | None \<Rightarrow> c)"

definition toLowerCase :: "string \<Rightarrow> string" where
  "toLowerCase s = map toLowerChar s"

text \<open>\<^verbatim>\<open>s.split('?')[0]\<close>: the text before the first question mark.\<close>

definition splitQuery0 :: "string \<Rightarrow> string" where
  "splitQuery0 s = takeWhile (\<lambda>c. c \<noteq> CHR ''?'') s"

text \<open>\<^verbatim>\<open>s.endsWith(suf)\<close>.\<close>

definition endsWith :: "string \<Rightarrow> string \<Rightarrow> bool" where
  "endsWith s suf \<longleftrightarrow>
     length suf \<le> length s \<and> drop (length s - length suf) s = suf"

text \<open>The test of lines 67-72 and of lines 84-89, on an already normalised URL.\<close>

definition hasImageExt :: "string \<Rightarrow> bool" where
  "hasImageExt u \<longleftrightarrow>
     endsWith u ''.gif'' \<or> endsWith u ''.jpg'' \<or> endsWith u ''.jpeg'' \<or> endsWith u ''.png''"

text \<open>Truthiness of a string-or-undefined value: neither absent nor empty.\<close>

fun truthy :: "string option \<Rightarrow> bool" where
  "truthy None = False"
| "truthy (Some s) = (s \<noteq> [])"

text \<open>Template-literal rendering of an integer.\<close>

definition digit :: "nat \<Rightarrow> char" where
  "digit d = ''0123456789'' ! d"

fun show_nat :: "nat \<Rightarrow> string" where
  "show_nat n = (if n < 10 then [digit n] else show_nat (n div 10) @ [digit (n mod 10)])"

declare show_nat.simps [simp del]

definition show_int :: "int \<Rightarrow> string" where
  "show_int i = (if i < 0 then CHR ''-'' # show_nat (nat (- i)) else show_nat (nat i))"

subsection \<open>Classification of one item (lines 63-99)\<close>

text \<open>
  \<^verbatim>\<open>post.preview?.images?.[0]\<close>: absent when the preview, the image array or its
  first element is absent.
\<close>

definition firstImage :: "post \<Rightarrow> image_obj option" where
  "firstImage p =
     Option.bind (Option.bind (preview p) images)
       (\<lambda>imgs. case imgs of [] \<Rightarrow> None | i # _ \<Rightarrow> Some i)"

text \<open>\<^verbatim>\<open>post.preview?.images?.[0]?.source?.url\<close>\<close>

definition sourceUrl :: "post \<Rightarrow> string option" where
  "sourceUrl p = Option.bind (Option.bind (firstImage p) source) source_url"

text \<open>\<^verbatim>\<open>post.preview?.images?.[0]?.variants?.gif?.source?.url\<close>\<close>

definition gifUrl :: "post \<Rightarrow> string option" where
  "gifUrl p =
     Option.bind (Option.bind (Option.bind (Option.bind (firstImage p) variants) gif) gif_source)
       source_url"

text \<open>
  Lines 80-82: \<^verbatim>\<open>a || b || ''\<close> yields the first operand that is neither absent nor
  empty, and the empty string when there is none.
\<close>

definition previewUrl :: "post \<Rightarrow> string" where
  "previewUrl p =
     (if truthy (sourceUrl p) then (case sourceUrl p of Some s \<Rightarrow> s | None \<Rightarrow> [])
      else if truthy (gifUrl p) then (case gifUrl p of Some s \<Rightarrow> s | None \<Rightarrow> [])
      else [])"

text \<open>
  The body of the \<^verbatim>\<open>for\<close> loop up to line 99, on the pair
  \<open>(mediaPosts, nonMediaPosts)\<close>. \<^verbatim>\<open>post.url.toLowerCase()\<close> on line 64 is a
  method call on \<^verbatim>\<open>undefined\<close> when the item has no \<^verbatim>\<open>url\<close>: a
  \<^verbatim>\<open>TypeError\<close>.
\<close>

definition process_post ::
  "int \<Rightarrow> post \<Rightarrow> post list \<times> post list \<Rightarrow> error + post list \<times> post list" where
  "process_post limit p acc =
     (case acc of (mediaPosts, nonMediaPosts) \<Rightarrow>
      (case url p of
         None \<Rightarrow> Inl (TypeError ''Cannot read properties of undefined'')
       | Some u \<Rightarrow>
           (let urlLower = splitQuery0 (toLowerCase u) in
            if hasImageExt urlLower then
              (if int (length mediaPosts) < limit
               then Inr (mediaPosts @ [p], nonMediaPosts)
               else Inr (mediaPosts, nonMediaPosts @ [p]))
            else
              (let previewUrlLower = splitQuery0 (toLowerCase (previewUrl p)) in
               if hasImageExt previewUrlLower then
                 (if int (length mediaPosts) < limit
                  then Inr (mediaPosts @ [p\<lparr>url := Some (previewUrl p)\<rparr>], nonMediaPosts)
                  else Inr (mediaPosts, nonMediaPosts @ [p]))
               else Inr (mediaPosts, nonMediaPosts @ [p])))))"

text \<open>
  The \<^verbatim>\<open>for (const post of posts)\<close> loop, lines 62-106. After each item, lines
  101-105 test \<^verbatim>\<open>mediaPosts.length >= limit\<close>; when it holds the rest of the page,
  \<^verbatim>\<open>posts.slice(posts.indexOf(post) + 1)\<close>, is pushed onto
  \<^verbatim>\<open>nonMediaPosts\<close> and the loop is left. The elements of \<^verbatim>\<open>posts\<close> are
  distinct objects fresh from \<^verbatim>\<open>response.json()\<close>, so \<^verbatim>\<open>indexOf\<close>
  (which compares by identity) finds the current position and the slice is the tail
  that the iteration has not reached yet.
\<close>

fun for_posts ::
  "int \<Rightarrow> post list \<Rightarrow> post list \<times> post list \<Rightarrow> error + post list \<times> post list" where
  "for_posts limit [] acc = Inr acc"
| "for_posts limit (p # ps) acc =
     (case process_post limit p acc of
        Inl e \<Rightarrow> Inl e
      | Inr (mediaPosts, nonMediaPosts) \<Rightarrow>
          if limit \<le> int (length mediaPosts)
          then Inr (mediaPosts, nonMediaPosts @ ps)
          else for_posts limit ps (mediaPosts, nonMediaPosts))"

subsection \<open>The outside world\<close>

text \<open>
  The body of a listing response (the \<^verbatim>\<open>GET\<close> of line 50 followed by
  \<^verbatim>\<open>response.json()\<close>): the request is rejected, or the JSON carries a truthy
  \<^verbatim>\<open>error\<close> field, or it is
  \<^verbatim>\<open>{data: {children: [{data: post}, ...], after: cursor}}\<close>.
\<close>

datatype response =
    TransportFailure
  | ErrorField string
  | Listing "post list" "string option"

datatype token_response =
    TokenTransportFailure
  | TokenErrorField string
  | TokenData "string option"   \<comment> \<open>\<^verbatim>\<open>data.access_token\<close>\<close>

text \<open>What a run does to the outside world, in the order in which it does it.\<close>

datatype event =
    Status string bool             \<comment> \<open>\<^verbatim>\<open>updateStatus(message, isError)\<close>\<close>
  | TokenRequest string string     \<comment> \<open>the \<^verbatim>\<open>POST\<close> of line 11\<close>
  | Fetch string string response   \<comment> \<open>the \<^verbatim>\<open>GET\<close> of line 50: URL, bearer token, answer\<close>
  | Confirm bool                   \<comment> \<open>\<^verbatim>\<open>window.confirm\<close> and the operator's answer\<close>
  | Sleep nat                      \<comment> \<open>the \<^verbatim>\<open>setTimeout\<close> of line 131, in milliseconds\<close>

text \<open>
  What the outside world answers. The listing endpoint may answer the same URL differently
  each time: its answer depends on how many listing requests came before. So does the
  operator's answer depend on how many prompts came before.
\<close>

record env =
  token_endpoint :: "string \<Rightarrow> string \<Rightarrow> token_response"
  listing_endpoint :: "nat \<Rightarrow> string \<Rightarrow> response"
  window_confirm :: "nat \<Rightarrow> bool"

fun is_fetch :: "event \<Rightarrow> bool" where
  "is_fetch (Fetch u t r) = True"
| "is_fetch _ = False"

fun is_confirm :: "event \<Rightarrow> bool" where
  "is_confirm (Confirm b) = True"
| "is_confirm _ = False"

fun is_sleep :: "event \<Rightarrow> bool" where
  "is_sleep (Sleep ms) = True"
| "is_sleep _ = False"

definition fetch_count :: "event list \<Rightarrow> nat" where
  "fetch_count evs = length (filter is_fetch evs)"

definition confirm_count :: "event list \<Rightarrow> nat" where
  "confirm_count evs = length (filter is_confirm evs)"

definition updateStatus :: "string \<Rightarrow> bool \<Rightarrow> event list \<Rightarrow> event list" where
  "updateStatus msg isError evs = evs @ [Status msg isError]"

subsection \<open>\<^verbatim>\<open>getAccessToken\<close> (lines 8-27)\<close>

definition getAccessToken ::
  "env \<Rightarrow> string \<Rightarrow> string \<Rightarrow> event list \<Rightarrow> string option \<times> event list" where
  "getAccessToken e clientId clientSecret evs =
     (let evs1 = updateStatus ''Fetching access token...'' False evs;
          evs2 = evs1 @ [TokenRequest clientId clientSecret]
      in case token_endpoint e clientId clientSecret of
           TokenTransportFailure \<Rightarrow>
             (None, updateStatus (''Error getting access token: '' @ ''Failed to fetch'') True evs2)
         | TokenErrorField err \<Rightarrow>
             (None, updateStatus (''Error getting access token: '' @ err) True evs2)
         | TokenData t \<Rightarrow>
             (t, updateStatus ''Access token retrieved'' False evs2))"

subsection \<open>\<^verbatim>\<open>fetchPosts\<close> (lines 30-140)\<close>

text \<open>The \<^verbatim>\<open>let\<close> variables of lines 36-39, and the event log.\<close>

record run_state =
  mediaPosts :: "post list"
  nonMediaPosts :: "post list"
  after :: "string option"
  requestCount :: nat
  events :: "event list"

text \<open>Line 40.\<close>

definition maxRequests :: "int \<Rightarrow> int" where
  "maxRequests limit = (if limit = 1 then 3 else max 3 (limit * 3))"

text \<open>Line 41.\<close>

definition batchSize :: "int \<Rightarrow> int" where
  "batchSize limit = min (limit + 5) 100"

text \<open>Lines 42-45.\<close>

definition baseUrl :: "string \<Rightarrow> string \<Rightarrow> int \<Rightarrow> string option \<Rightarrow> string" where
  "baseUrl subreddit sortName limit timeFilter =
     (let b = ''https://oauth.reddit.com/r/'' @ subreddit @ ''/'' @ sortName @ ''.json?limit=''
                @ show_int (batchSize limit)
      in if sortName = ''top'' \<and> truthy timeFilter
         then b @ ''&t='' @ (case timeFilter of Some t \<Rightarrow> t | None \<Rightarrow> [])
         else b)"

text \<open>How one pass through the body of the \<^verbatim>\<open>while\<close> loop ends.\<close>

datatype step =
    Continue run_state          \<comment> \<open>the end of the body is reached: the condition is tested again\<close>
  | Break run_state             \<comment> \<open>a \<^verbatim>\<open>break\<close>\<close>
  | Throw error "event list"    \<comment> \<open>an exception, with the log at that moment\<close>

text \<open>Lines 124-131.\<close>

definition advance :: "int \<Rightarrow> string option \<Rightarrow> run_state \<Rightarrow> step" where
  "advance limit next st =
     (let st1 = st\<lparr>after := next, requestCount := requestCount st + 1\<rparr>
      in if \<not> truthy next then Break st1
         else Continue (st1\<lparr>events :=
                (updateStatus (''Fetched '' @ show_nat (length (mediaPosts st1)) @ ''/''
                                 @ show_int limit @ '' image posts...'') False (events st1))
                @ [Sleep 1000]\<rparr>))"

text \<open>Lines 49-131: the body of the \<^verbatim>\<open>while\<close> loop.\<close>

definition loop_body :: "env \<Rightarrow> string \<Rightarrow> int \<Rightarrow> string \<Rightarrow> run_state \<Rightarrow> step" where
  "loop_body e token limit base st =
     (let u = (if truthy (after st)
               then base @ ''&after='' @ (case after st of Some a \<Rightarrow> a | None \<Rightarrow> [])
               else base);
          r = listing_endpoint e (fetch_count (events st)) u;
          st1 = st\<lparr>events := events st @ [Fetch u token r]\<rparr>
      in case r of
           TransportFailure \<Rightarrow> Throw (TypeError ''Failed to fetch'') (events st1)
         | ErrorField err \<Rightarrow> Throw (Error err) (events st1)
         | Listing posts next \<Rightarrow>
             if posts = [] then Break st1
             else
               (case for_posts limit posts (mediaPosts st1, nonMediaPosts st1) of
                  Inl ex \<Rightarrow> Throw ex (events st1)
                | Inr (m, n) \<Rightarrow>
                    (let st2 = st1\<lparr>mediaPosts := m, nonMediaPosts := n\<rparr>
                     in if limit \<le> int (length m) then Break st2
                        else if limit = 1 \<and> requestCount st2 = 2 \<and> m = [] then
                          (let continueFetching = window_confirm e (confirm_count (events st2));
                               st3 = st2\<lparr>events := events st2 @ [Confirm continueFetching]\<rparr>
                           in if \<not> continueFetching
                              then Break (st3\<lparr>events :=
                                     updateStatus ''Stopped fetching: No image posts found'' True
                                       (events st3)\<rparr>)
                              else advance limit next st3)
                        else advance limit next st2)))"

text \<open>
  Line 48: the \<^verbatim>\<open>while\<close> loop. It ends by its condition or by a
  \<^verbatim>\<open>break\<close> (\<open>Inr\<close>, the state at that moment), or by an exception (\<open>Inl\<close>).
\<close>

function while_loop ::
  "env \<Rightarrow> string \<Rightarrow> int \<Rightarrow> string \<Rightarrow> run_state \<Rightarrow> error \<times> event list + run_state" where
  "while_loop e token limit base st =
     (if int (length (mediaPosts st)) < limit \<and> int (requestCount st) < maxRequests limit
      then (case loop_body e token limit base st of
              Continue st' \<Rightarrow> while_loop e token limit base st'
            | Break st' \<Rightarrow> Inr st'
            | Throw ex evs \<Rightarrow> Inl (ex, evs))
      else Inr st)"
  by pat_completeness auto
termination
  by (relation "measure (\<lambda>(e, token, limit, base, st). nat (maxRequests limit - int (requestCount st)))")
     (auto simp: loop_body_def advance_def Let_def
           split: response.splits sum.splits prod.splits if_splits)

declare while_loop.simps [simp del]

text \<open>What \<^verbatim>\<open>fetchPosts\<close> returns, with the log of the run.\<close>

record outcome =
  mediaPostsOut :: "post list"
  nonMediaPostsOut :: "post list"
  eventsOut :: "event list"

text \<open>Lines 36-39: the state in which the \<^verbatim>\<open>while\<close> loop is entered.\<close>

definition initial :: "event list \<Rightarrow> run_state" where
  "initial evs = \<lparr>mediaPosts = [], nonMediaPosts = [], after = Some [], requestCount = 0,
                  events = evs\<rparr>"

text \<open>The \<^verbatim>\<open>try\<close> block, lines 32-135.\<close>

definition fetchPosts_try ::
  "env \<Rightarrow> string \<Rightarrow> string \<Rightarrow> string \<Rightarrow> string \<Rightarrow> int \<Rightarrow> string option
     \<Rightarrow> error \<times> event list + outcome" where
  "fetchPosts_try e clientId clientSecret subreddit sortName limit timeFilter =
     (case getAccessToken e clientId clientSecret (updateStatus ''Fetching posts...'' False []) of
        (token, evs) \<Rightarrow>
          if \<not> truthy token
          then Inr \<lparr>mediaPostsOut = [], nonMediaPostsOut = [], eventsOut = evs\<rparr>
          else
            (case while_loop e (case token of Some t \<Rightarrow> t | None \<Rightarrow> []) limit
                    (baseUrl subreddit sortName limit timeFilter)
                    (initial evs) of
               Inl x \<Rightarrow> Inl x
             | Inr st \<Rightarrow>
                 Inr \<lparr>mediaPostsOut = mediaPosts st, nonMediaPostsOut = nonMediaPosts st,
                      eventsOut =
                        updateStatus (''Successfully fetched '' @ show_nat (length (mediaPosts st))
                                        @ '' image posts'') False (events st)\<rparr>))"

text \<open>The whole function: the \<^verbatim>\<open>try\<close> block under the \<^verbatim>\<open>catch\<close> of lines 136-139.\<close>

definition fetchPosts ::
  "env \<Rightarrow> string \<Rightarrow> string \<Rightarrow> string \<Rightarrow> string \<Rightarrow> int \<Rightarrow> string option \<Rightarrow> outcome" where
  "fetchPosts e clientId clientSecret subreddit sortName limit timeFilter =
     (case fetchPosts_try e clientId clientSecret subreddit sortName limit timeFilter of
        Inr out \<Rightarrow> out
      | Inl (ex, evs) \<Rightarrow>
          \<lparr>mediaPostsOut = [], nonMediaPostsOut = [],
           eventsOut = updateStatus (''Error fetching posts: '' @ message ex) True evs\<rparr>)"

text \<open>Line 160 of \<^verbatim>\<open>displayMedia\<close>: the limit that \<^verbatim>\<open>fetchPosts\<close> is called with.\<close>

definition clampLimit :: "int \<Rightarrow> int" where
  "clampLimit limitInput = min (max limitInput 1) 100"

subsection \<open>Observations on a run\<close>

fun is_listing :: "response \<Rightarrow> bool" where
  "is_listing (Listing ps next) = True"
| "is_listing _ = False"

text \<open>A page fetch that failed: the transport failed or the answer carries an error field.\<close>

fun failed_fetch :: "event \<Rightarrow> bool" where
  "failed_fetch (Fetch u t r) = (\<not> is_listing r)"
| "failed_fetch _ = False"

text \<open>The items that the fetched pages delivered, in arrival order.\<close>

fun posts_of :: "event \<Rightarrow> post list" where
  "posts_of (Fetch u t (Listing ps next)) = ps"
| "posts_of _ = []"

definition delivered :: "event list \<Rightarrow> post list" where
  "delivered evs = concat (map posts_of evs)"

text \<open>
  An item as it is stored in the media list: unchanged when its own URL has an image
  extension, with the preview URL in its \<^verbatim>\<open>url\<close> field otherwise (line 91).
\<close>

definition asMedia :: "post \<Rightarrow> post" where
  "asMedia p =
     (case url p of
        None \<Rightarrow> p
      | Some u \<Rightarrow> if hasImageExt (splitQuery0 (toLowerCase u)) then p
                  else p\<lparr>url := Some (previewUrl p)\<rparr>)"

text \<open>The number of stall prompts that the operator answered with "continue".\<close>

definition approved :: "event list \<Rightarrow> nat" where
  "approved evs = length (filter (\<lambda>ev. ev = Confirm True) evs)"

text \<open>The number of sleeps after the last page fetch of a log.\<close>

definition sleeps_after_last_fetch :: "event list \<Rightarrow> nat" where
  "sleeps_after_last_fetch evs =
     length (filter is_sleep (takeWhile (\<lambda>ev. \<not> is_fetch ev) (rev evs)))"

text \<open>The log at the moment the \<^verbatim>\<open>while\<close> loop is left.\<close>

definition final_events :: "error \<times> event list + run_state \<Rightarrow> event list" where
  "final_events r = (case r of Inl (ex, evs) \<Rightarrow> evs | Inr st \<Rightarrow> events st)"

text \<open>A log without page fetch, sleep or prompt.\<close>

definition quiet :: "event list \<Rightarrow> bool" where
  "quiet evs \<longleftrightarrow> (\<forall>x\<in>set evs. \<not> is_fetch x \<and> \<not> is_sleep x \<and> \<not> is_confirm x)"

text \<open>
  Every delivered item is in exactly one of the two lists, both lists in arrival order: the
  delivered items are an interleaving of the non-media list with the items behind the media
  list.
\<close>

definition partitioned :: "run_state \<Rightarrow> bool" where
  "partitioned s \<longleftrightarrow>
     (\<exists>orig. mediaPosts s = map asMedia orig \<and>
             delivered (events s) \<in> shuffles orig (nonMediaPosts s))"

text \<open>
  The pacing of a run: the request counter counts the page fetches, it stays within the
  budget, and a sleep that follows the last page fetch so far was performed with the media
  list still short of the limit.
\<close>

definition paced :: "int \<Rightarrow> run_state \<Rightarrow> bool" where
  "paced L s \<longleftrightarrow>
     fetch_count (events s) = requestCount s \<and> int (requestCount s) \<le> maxRequests L \<and>
     sleeps_after_last_fetch (events s) \<le> 1 \<and>
     (sleeps_after_last_fetch (events s) = 1 \<longrightarrow> int (length (mediaPosts s)) < L)"

definition paced_end :: "int \<Rightarrow> event list \<Rightarrow> bool" where
  "paced_end L evs \<longleftrightarrow>
     sleeps_after_last_fetch evs \<le> 1 \<and>
     (sleeps_after_last_fetch evs = 1 \<longrightarrow> int (fetch_count evs) = maxRequests L)"

subsection \<open>Example inputs\<close>

definition htmlPost :: post where
  "htmlPost = \<lparr>url = Some ''https://x.com/a.html'', permalink = ''/r/x/1'', title = ''one'',
               preview = None\<rparr>"

definition jpgPost :: post where
  "jpgPost = \<lparr>url = Some ''https://x.com/a.JPG?x=1'', permalink = ''/r/x/2'', title = ''two'',
              preview = None\<rparr>"

definition previewPost :: post where
  "previewPost =
     \<lparr>url = Some ''https://x.com/a.html'', permalink = ''/r/x/3'', title = ''three'',
      preview = Some \<lparr>images = Some [\<lparr>source = Some \<lparr>source_url = Some ''https://y.com/b.png?w=1''\<rparr>,
                                      variants = None\<rparr>]\<rparr>\<rparr>"

definition emptySourcePost :: post where
  "emptySourcePost =
     \<lparr>url = Some ''https://x.com/a.html'', permalink = ''/r/x/4'', title = ''four'',
      preview = Some \<lparr>images = Some [\<lparr>source = Some \<lparr>source_url = Some []\<rparr>,
        variants = Some \<lparr>gif = Some \<lparr>gif_source =
          Some \<lparr>source_url = Some ''https://y.com/c.gif?f=1''\<rparr>\<rparr>\<rparr>\<rparr>]\<rparr>\<rparr>"

definition absentSourcePost :: post where
  "absentSourcePost =
     \<lparr>url = Some ''https://x.com/a.html'', permalink = ''/r/x/4'', title = ''four'',
      preview = Some \<lparr>images = Some [\<lparr>source = None,
        variants = Some \<lparr>gif = Some \<lparr>gif_source =
          Some \<lparr>source_url = Some ''https://y.com/c.gif?f=1''\<rparr>\<rparr>\<rparr>\<rparr>]\<rparr>\<rparr>"

definition noUrlPost :: post where
  "noUrlPost =
     \<lparr>url = None, permalink = ''/r/x/5'', title = ''five'',
      preview = Some \<lparr>images = Some [\<lparr>source = Some \<lparr>source_url = Some ''https://y.com/b.png?w=1''\<rparr>,
                                      variants = None\<rparr>]\<rparr>\<rparr>"

definition emptyUrlPost :: post where
  "emptyUrlPost = \<lparr>url = Some [], permalink = ''/r/x/6'', title = ''six'', preview = None\<rparr>"

text \<open>An endpoint whose every page holds one item without image, and an operator who continues.\<close>

definition stallEnv :: env where
  "stallEnv =
     \<lparr>token_endpoint = (\<lambda>clientId clientSecret. TokenData (Some ''tok'')),
      listing_endpoint = (\<lambda>k u. Listing [htmlPost] (Some ''t3_a'')),
      window_confirm = (\<lambda>k. True)\<rparr>"

text \<open>An endpoint whose every page holds three items, two of them images.\<close>

definition mediaEnv :: env where
  "mediaEnv =
     \<lparr>token_endpoint = (\<lambda>clientId clientSecret. TokenData (Some ''tok'')),
      listing_endpoint = (\<lambda>k u. Listing [htmlPost, jpgPost, previewPost] (Some ''t3_b'')),
      window_confirm = (\<lambda>k. False)\<rparr>"

text \<open>An endpoint that delivers one page and answers the second request with an error field.\<close>

definition failEnv :: env where
  "failEnv =
     \<lparr>token_endpoint = (\<lambda>clientId clientSecret. TokenData (Some ''tok'')),
      listing_endpoint =
        (\<lambda>k u. if k = 0 then Listing [jpgPost, htmlPost] (Some ''t3_c'') else ErrorField ''403''),
      window_confirm = (\<lambda>k. False)\<rparr>"

text \<open>An endpoint that delivers one page and is unreachable afterwards.\<close>

definition offlineEnv :: env where
  "offlineEnv =
     \<lparr>token_endpoint = (\<lambda>clientId clientSecret. TokenData (Some ''tok'')),
      listing_endpoint =
        (\<lambda>k u. if k = 0 then Listing [htmlPost] (Some ''t3_d'') else TransportFailure),
      window_confirm = (\<lambda>k. False)\<rparr>"

text \<open>An endpoint whose page holds an item without \<^verbatim>\<open>url\<close>.\<close>

definition noUrlEnv :: env where
  "noUrlEnv =
     \<lparr>token_endpoint = (\<lambda>clientId clientSecret. TokenData (Some ''tok'')),
      listing_endpoint = (\<lambda>k u. Listing [noUrlPost] None),
      window_confirm = (\<lambda>k. False)\<rparr>"

section \<open>Properties\<close>

subsection \<open>One pass through the loop body\<close>

lemma for_posts_append:
  "for_posts limit pre acc = Inr (m1, n1) \<Longrightarrow> int (length m1) < limit \<Longrightarrow>
   for_posts limit (pre @ rest) acc = for_posts limit rest (m1, n1)"
proof (induction pre arbitrary: acc)
  case Nil
  then show ?case by simp
next
  case (Cons p pre)
  then show ?case
    by (auto split: sum.splits if_splits prod.splits)
qed

lemma loop_body_ContinueD:
  assumes "loop_body e t L b st = Continue st'"
  shows "\<exists>u posts next rest.
           events st' = events st @ Fetch u t (Listing posts next) # rest @ [Sleep 1000] \<and>
           (\<forall>x\<in>set rest. \<not> is_fetch x \<and> \<not> is_sleep x) \<and>
           for_posts L posts (mediaPosts st, nonMediaPosts st)
             = Inr (mediaPosts st', nonMediaPosts st') \<and>
           int (length (mediaPosts st')) < L \<and> truthy (after st') \<and>
           requestCount st' = Suc (requestCount st)"
  using assms
  by (auto simp: loop_body_def advance_def Let_def updateStatus_def
        split: response.splits sum.splits prod.splits if_splits)

lemma loop_body_BreakD:
  assumes "loop_body e t L b st = Break st'"
  shows "\<exists>u posts next rest.
           events st' = events st @ Fetch u t (Listing posts next) # rest \<and>
           (\<forall>x\<in>set rest. \<not> is_fetch x \<and> \<not> is_sleep x) \<and>
           for_posts L posts (mediaPosts st, nonMediaPosts st)
             = Inr (mediaPosts st', nonMediaPosts st') \<and>
           requestCount st \<le> requestCount st' \<and> requestCount st' \<le> Suc (requestCount st)"
  using assms
  by (auto simp: loop_body_def advance_def Let_def updateStatus_def
        split: response.splits sum.splits prod.splits if_splits)

lemma loop_body_ThrowD:
  assumes "loop_body e t L b st = Throw ex evs"
  shows "\<exists>u r. evs = events st @ [Fetch u t r] \<and>
           (\<not> is_listing r \<or>
            (\<exists>posts next. r = Listing posts next \<and>
               for_posts L posts (mediaPosts st, nonMediaPosts st) = Inl ex))"
  using assms
  by (auto simp: loop_body_def advance_def Let_def updateStatus_def
        split: response.splits sum.splits prod.splits if_splits)

text \<open>
  The proof rule of the \<^verbatim>\<open>while\<close> loop: an invariant \<open>I\<close> of the passes that reach
  the end of the body, and a property \<open>Q\<close> of each way of leaving the loop.
\<close>

lemma while_loop_rule:
  assumes "I st"
    and "\<And>s s'. I s \<Longrightarrow> int (length (mediaPosts s)) < L \<Longrightarrow> int (requestCount s) < maxRequests L \<Longrightarrow>
            loop_body e t L b s = Continue s' \<Longrightarrow> I s'"
    and "\<And>s s'. I s \<Longrightarrow> int (length (mediaPosts s)) < L \<Longrightarrow> int (requestCount s) < maxRequests L \<Longrightarrow>
            loop_body e t L b s = Break s' \<Longrightarrow> Q (Inr s')"
    and "\<And>s ex evs. I s \<Longrightarrow> int (length (mediaPosts s)) < L \<Longrightarrow> int (requestCount s) < maxRequests L \<Longrightarrow>
            loop_body e t L b s = Throw ex evs \<Longrightarrow> Q (Inl (ex, evs))"
    and "\<And>s. I s \<Longrightarrow> \<not> (int (length (mediaPosts s)) < L \<and> int (requestCount s) < maxRequests L) \<Longrightarrow>
            Q (Inr s)"
  shows "Q (while_loop e t L b st)"
  using assms
proof (induction e t L b st rule: while_loop.induct)
  case (1 e t L b st)
  note inv = "1.prems"(1) and cont = "1.prems"(2) and brk = "1.prems"(3)
    and thr = "1.prems"(4) and ext = "1.prems"(5)
  show ?case
  proof (cases "int (length (mediaPosts st)) < L \<and> int (requestCount st) < maxRequests L")
    case False
    have eq: "while_loop e t L b st = Inr st"
      using False by (subst while_loop.simps) auto
    show ?thesis unfolding eq by (rule ext [OF inv False])
  next
    case True
    then have c1: "int (length (mediaPosts st)) < L" and c2: "int (requestCount st) < maxRequests L"
      by simp_all
    show ?thesis
    proof (cases "loop_body e t L b st")
      case (Continue s')
      have eq: "while_loop e t L b st = while_loop e t L b s'"
        using True Continue by (subst while_loop.simps) simp
      have "I s'" by (rule cont [OF inv c1 c2 Continue])
      then show ?thesis unfolding eq
        by (rule "1.IH" [OF True Continue _ cont brk thr ext])
    next
      case (Break s')
      have eq: "while_loop e t L b st = Inr s'"
        using True Break by (subst while_loop.simps) simp
      show ?thesis unfolding eq by (rule brk [OF inv c1 c2 Break])
    next
      case (Throw ex evs)
      have eq: "while_loop e t L b st = Inl (ex, evs)"
        using True Throw by (subst while_loop.simps) simp
      show ?thesis unfolding eq by (rule thr [OF inv c1 c2 Throw])
    qed
  qed
qed

subsection \<open>The ways through \<^verbatim>\<open>fetchPosts\<close>\<close>

lemma final_events_simps [simp]:
  "final_events (Inl (ex, evs)) = evs" "final_events (Inr st) = events st"
  by (simp_all add: final_events_def)

lemma initial_simps [simp]:
  "mediaPosts (initial evs) = []" "nonMediaPosts (initial evs) = []"
  "requestCount (initial evs) = 0" "events (initial evs) = evs" "after (initial evs) = Some []"
  by (simp_all add: initial_def)

lemma fetch_count_simps [simp]:
  "fetch_count [] = 0"
  "fetch_count (xs @ ys) = fetch_count xs + fetch_count ys"
  "fetch_count (x # xs) = (if is_fetch x then 1 else 0) + fetch_count xs"
  by (simp_all add: fetch_count_def)

lemma fetch_count_none: "\<forall>x\<in>set xs. \<not> is_fetch x \<and> \<not> is_sleep x \<Longrightarrow> fetch_count xs = 0"
  by (induction xs) simp_all

lemma quiet_fetch_count: "quiet evs \<Longrightarrow> fetch_count evs = 0"
  by (induction evs) (simp_all add: quiet_def)

lemma getAccessToken_quiet:
  "getAccessToken e c s [Status a False] = (tok, evs) \<Longrightarrow> quiet evs"
  by (auto simp: getAccessToken_def Let_def updateStatus_def quiet_def split: token_response.splits)

lemma fetchPosts_try_cases:
  obtains (NoToken) evs where "quiet evs"
      "fetchPosts_try e c s sub srt L tf
         = Inr \<lparr>mediaPostsOut = [], nonMediaPostsOut = [], eventsOut = evs\<rparr>"
  | (Failed) tok evs ex evs' where "quiet evs"
      "while_loop e tok L (baseUrl sub srt L tf) (initial evs) = Inl (ex, evs')"
      "fetchPosts_try e c s sub srt L tf = Inl (ex, evs')"
  | (Returned) tok evs st msg where "quiet evs"
      "while_loop e tok L (baseUrl sub srt L tf) (initial evs) = Inr st"
      "fetchPosts_try e c s sub srt L tf
         = Inr \<lparr>mediaPostsOut = mediaPosts st, nonMediaPostsOut = nonMediaPosts st,
                eventsOut = events st @ [Status msg False]\<rparr>"
proof (cases "getAccessToken e c s (updateStatus ''Fetching posts...'' False [])")
  case (Pair token evs)
  then have q: "quiet evs" by (auto simp: updateStatus_def dest: getAccessToken_quiet)
  show ?thesis
  proof (cases "truthy token")
    case False
    then show ?thesis using Pair q NoToken by (simp add: fetchPosts_try_def)
  next
    case True
    let ?w = "while_loop e (case token of Some t \<Rightarrow> t | None \<Rightarrow> []) L (baseUrl sub srt L tf) (initial evs)"
    show ?thesis
    proof (cases ?w)
      case (Inl x)
      then show ?thesis using Pair q True Failed [of evs _ "fst x" "snd x"]
        by (simp add: fetchPosts_try_def initial_def)
    next
      case (Inr st)
      then show ?thesis using Pair q True Returned [of evs _ st]
        by (simp add: fetchPosts_try_def initial_def updateStatus_def)
    qed
  qed
qed

lemma fetchPosts_cases:
  obtains (NoToken) evs where "quiet evs"
      "fetchPosts e c s sub srt L tf
         = \<lparr>mediaPostsOut = [], nonMediaPostsOut = [], eventsOut = evs\<rparr>"
  | (Failed) tok evs ex evs' msg where "quiet evs"
      "while_loop e tok L (baseUrl sub srt L tf) (initial evs) = Inl (ex, evs')"
      "fetchPosts e c s sub srt L tf
         = \<lparr>mediaPostsOut = [], nonMediaPostsOut = [], eventsOut = evs' @ [Status msg True]\<rparr>"
  | (Returned) tok evs st msg where "quiet evs"
      "while_loop e tok L (baseUrl sub srt L tf) (initial evs) = Inr st"
      "fetchPosts e c s sub srt L tf
         = \<lparr>mediaPostsOut = mediaPosts st, nonMediaPostsOut = nonMediaPosts st,
            eventsOut = events st @ [Status msg False]\<rparr>"
proof (cases e c s sub srt L tf rule: fetchPosts_try_cases)
  case (NoToken evs)
  then show ?thesis using that(1) by (simp add: fetchPosts_def)
next
  case (Failed tok evs ex evs')
  then show ?thesis using that(2) by (simp add: fetchPosts_def updateStatus_def)
next
  case (Returned tok evs st msg)
  then show ?thesis using that(3) by (simp add: fetchPosts_def)
qed

subsection \<open>Counting requests\<close>

lemma maxRequests_ge_3: "3 \<le> maxRequests L"
  by (simp add: maxRequests_def)

lemma while_loop_fetch_bound:
  assumes "fetch_count (events st) = requestCount st" "int (requestCount st) \<le> maxRequests L"
  shows "int (fetch_count (final_events (while_loop e t L b st))) \<le> maxRequests L"
proof (rule while_loop_rule [where
        I = "\<lambda>s. fetch_count (events s) = requestCount s \<and> int (requestCount s) \<le> maxRequests L"
        and Q = "\<lambda>r. int (fetch_count (final_events r)) \<le> maxRequests L"])
  show "fetch_count (events st) = requestCount st \<and> int (requestCount st) \<le> maxRequests L"
    using assms by simp
next
  fix s s'
  assume "fetch_count (events s) = requestCount s \<and> int (requestCount s) \<le> maxRequests L"
    "int (requestCount s) < maxRequests L" "loop_body e t L b s = Continue s'"
  then show "fetch_count (events s') = requestCount s' \<and> int (requestCount s') \<le> maxRequests L"
    by (auto dest!: loop_body_ContinueD simp: fetch_count_none)
next
  fix s s'
  assume "fetch_count (events s) = requestCount s \<and> int (requestCount s) \<le> maxRequests L"
    "int (requestCount s) < maxRequests L" "loop_body e t L b s = Break s'"
  then show "int (fetch_count (final_events (Inr s'))) \<le> maxRequests L"
    by (auto dest!: loop_body_BreakD simp: fetch_count_none)
next
  fix s ex evs
  assume "fetch_count (events s) = requestCount s \<and> int (requestCount s) \<le> maxRequests L"
    "int (requestCount s) < maxRequests L" "loop_body e t L b s = Throw ex evs"
  then show "int (fetch_count (final_events (Inl (ex, evs)))) \<le> maxRequests L"
    by (auto dest!: loop_body_ThrowD)
next
  fix s :: run_state
  assume "fetch_count (events s) = requestCount s \<and> int (requestCount s) \<le> maxRequests L"
  then show "int (fetch_count (final_events (Inr s))) \<le> maxRequests L"
    by simp
qed

lemma fetchPosts_fetch_bound:
  "int (fetch_count (eventsOut (fetchPosts e c s sub srt L tf))) \<le> maxRequests L"
proof (cases e c s sub srt L tf rule: fetchPosts_cases)
  case (NoToken evs)
  then show ?thesis using maxRequests_ge_3 [of L] by (simp add: quiet_fetch_count)
next
  case (Failed tok evs ex evs' msg)
  have "int (fetch_count (final_events (while_loop e tok L (baseUrl sub srt L tf) (initial evs)))) \<le> maxRequests L"
    using Failed(1) maxRequests_ge_3 [of L] by (intro while_loop_fetch_bound) (simp_all add: quiet_fetch_count)
  then show ?thesis using Failed by simp
next
  case (Returned tok evs st msg)
  have "int (fetch_count (final_events (while_loop e tok L (baseUrl sub srt L tf) (initial evs)))) \<le> maxRequests L"
    using Returned(1) maxRequests_ge_3 [of L] by (intro while_loop_fetch_bound) (simp_all add: quiet_fetch_count)
  then show ?thesis using Returned by simp
qed

subsection \<open>The length of the media list\<close>

lemma process_post_length:
  "process_post L p (m, n) = Inr (m', n') \<Longrightarrow> int (length m) \<le> L \<Longrightarrow> int (length m') \<le> L"
  by (auto simp: process_post_def Let_def split: option.splits if_splits)

lemma for_posts_length:
  "for_posts L ps (m, n) = Inr (m', n') \<Longrightarrow> int (length m) \<le> L \<Longrightarrow> int (length m') \<le> L"
proof (induction ps arbitrary: m n)
  case Nil
  then show ?case by simp
next
  case (Cons p ps)
  then show ?case
    by (auto split: sum.splits prod.splits if_splits dest: process_post_length)
qed

lemma while_loop_media_bound:
  assumes "int (length (mediaPosts st)) \<le> L"
  shows "case while_loop e t L b st of Inr s \<Rightarrow> int (length (mediaPosts s)) \<le> L | Inl x \<Rightarrow> True"
proof (rule while_loop_rule [where I = "\<lambda>s. int (length (mediaPosts s)) \<le> L"
      and Q = "\<lambda>r. case r of Inr s \<Rightarrow> int (length (mediaPosts s)) \<le> L | Inl x \<Rightarrow> True"])
  show "int (length (mediaPosts st)) \<le> L" by (rule assms)
next
  fix s s'
  assume "int (length (mediaPosts s)) \<le> L" "loop_body e t L b s = Continue s'"
  then show "int (length (mediaPosts s')) \<le> L"
    by (auto dest!: loop_body_ContinueD)
next
  fix s s'
  assume "int (length (mediaPosts s)) \<le> L" "loop_body e t L b s = Break s'"
  then show "case Inr s' of Inr s \<Rightarrow> int (length (mediaPosts s)) \<le> L | Inl (x :: error \<times> event list) \<Rightarrow> True"
    by (auto dest!: loop_body_BreakD dest: for_posts_length)
next
  fix s :: run_state
  assume "int (length (mediaPosts s)) \<le> L"
  then show "case Inr s of Inr s \<Rightarrow> int (length (mediaPosts s)) \<le> L | Inl (x :: error \<times> event list) \<Rightarrow> True"
    by simp
qed simp

lemma fetchPosts_media_bound:
  assumes "0 \<le> L"
  shows "int (length (mediaPostsOut (fetchPosts e c s sub srt L tf))) \<le> L"
proof (cases e c s sub srt L tf rule: fetchPosts_cases)
  case (NoToken evs)
  then show ?thesis using assms by simp
next
  case (Failed tok evs ex evs' msg)
  then show ?thesis using assms by simp
next
  case (Returned tok evs st msg)
  have "int (length (mediaPosts (initial evs))) \<le> L" using assms by simp
  from while_loop_media_bound [OF this, of e tok "baseUrl sub srt L tf"] Returned
  show ?thesis by simp
qed

subsection \<open>Failed fetches\<close>

lemma loop_body_requestCount:
  assumes "int (requestCount st) < maxRequests L"
    and "loop_body e t L b st = Continue st' \<or> loop_body e t L b st = Break st'"
  shows "requestCount st \<le> requestCount st' \<and> int (requestCount st') \<le> maxRequests L"
  using assms by (auto dest!: loop_body_ContinueD loop_body_BreakD)

lemma while_loop_failed_fetch:
  assumes "\<forall>x\<in>set (events st). \<not> failed_fetch x"
  shows "case while_loop e t L b st of
           Inr s \<Rightarrow> \<forall>x\<in>set (events s). \<not> failed_fetch x
         | Inl (ex, evs) \<Rightarrow> \<exists>pre ev. evs = pre @ [ev] \<and> (\<forall>x\<in>set pre. \<not> failed_fetch x)"
proof (rule while_loop_rule [where I = "\<lambda>s. \<forall>x\<in>set (events s). \<not> failed_fetch x"
      and Q = "\<lambda>r. case r of
           Inr s \<Rightarrow> \<forall>x\<in>set (events s). \<not> failed_fetch x
         | Inl (ex, evs) \<Rightarrow> \<exists>pre ev. evs = pre @ [ev] \<and> (\<forall>x\<in>set pre. \<not> failed_fetch x)"])
  show "\<forall>x\<in>set (events st). \<not> failed_fetch x" by (rule assms)
next
  fix s s'
  assume "\<forall>x\<in>set (events s). \<not> failed_fetch x" "loop_body e t L b s = Continue s'"
  then show "\<forall>x\<in>set (events s'). \<not> failed_fetch x"
    by (fastforce dest!: loop_body_ContinueD elim: failed_fetch.elims)
next
  fix s s'
  assume "\<forall>x\<in>set (events s). \<not> failed_fetch x" "loop_body e t L b s = Break s'"
  then have "\<forall>x\<in>set (events s'). \<not> failed_fetch x"
    by (fastforce dest!: loop_body_BreakD elim: failed_fetch.elims)
  then show "case Inr s' of
           Inr s \<Rightarrow> \<forall>x\<in>set (events s). \<not> failed_fetch x
         | Inl (ex :: error, evs) \<Rightarrow> \<exists>pre ev. evs = pre @ [ev] \<and> (\<forall>x\<in>set pre. \<not> failed_fetch x)"
    by simp
next
  fix s ex evs
  assume "\<forall>x\<in>set (events s). \<not> failed_fetch x" "loop_body e t L b s = Throw ex evs"
  then have "\<exists>pre ev. evs = pre @ [ev] \<and> (\<forall>x\<in>set pre. \<not> failed_fetch x)"
    by (auto dest!: loop_body_ThrowD)
  then show "case Inl (ex, evs) of
           Inr (s :: run_state) \<Rightarrow> \<forall>x\<in>set (events s). \<not> failed_fetch x
         | Inl (ex, evs) \<Rightarrow> \<exists>pre ev. evs = pre @ [ev] \<and> (\<forall>x\<in>set pre. \<not> failed_fetch x)"
    by simp
next
  fix s :: run_state
  assume "\<forall>x\<in>set (events s). \<not> failed_fetch x"
  then show "case Inr s of
           Inr s \<Rightarrow> \<forall>x\<in>set (events s). \<not> failed_fetch x
         | Inl (ex :: error, evs) \<Rightarrow> \<exists>pre ev. evs = pre @ [ev] \<and> (\<forall>x\<in>set pre. \<not> failed_fetch x)"
    by simp
qed

lemma failed_is_fetch: "failed_fetch x \<Longrightarrow> is_fetch x"
  by (cases x) simp_all

lemma quiet_not_failed: "quiet evs \<Longrightarrow> \<forall>x\<in>set (events (initial evs)). \<not> failed_fetch x"
  by (auto simp: quiet_def dest: failed_is_fetch)

subsection \<open>Where the delivered items go\<close>

lemma shuffles_append:
  "xs \<in> shuffles a b \<Longrightarrow> ys \<in> shuffles c d \<Longrightarrow> xs @ ys \<in> shuffles (a @ c) (b @ d)"
proof (induction xs arbitrary: a b)
  case Nil
  then show ?case by simp
next
  case (Cons z zs)
  from Cons.prems(1) consider
    (left) "a \<noteq> []" "hd a = z" "zs \<in> shuffles (tl a) b"
    | (right) "b \<noteq> []" "hd b = z" "zs \<in> shuffles a (tl b)"
    by (auto simp: Cons_in_shuffles_iff)
  then show ?case
  proof cases
    case left
    from Cons.IH [OF left(3) Cons.prems(2)] left(1,2) show ?thesis
      by (cases a) (simp_all add: Cons_in_shuffles_iff)
  next
    case right
    from Cons.IH [OF right(3) Cons.prems(2)] right(1,2) show ?thesis
      by (cases b) (simp_all add: Cons_in_shuffles_iff)
  qed
qed

lemma process_post_cases:
  "process_post L p (m, n) = Inr (m', n') \<Longrightarrow>
     (m' = m @ [asMedia p] \<and> n' = n) \<or> (m' = m \<and> n' = n @ [p])"
  by (auto simp: process_post_def asMedia_def Let_def split: option.splits if_splits)

lemma for_posts_shuffle:
  "for_posts L ps (m, n) = Inr (m', n') \<Longrightarrow>
     \<exists>om on. m' = m @ map asMedia om \<and> n' = n @ on \<and> ps \<in> shuffles om on"
proof (induction ps arbitrary: m n)
  case Nil
  then show ?case by simp
next
  case (Cons p ps)
  from Cons.prems obtain m1 n1 where pp: "process_post L p (m, n) = Inr (m1, n1)"
    by (auto split: sum.splits prod.splits)
  from process_post_cases [OF pp]
  have step: "(m1 = m @ [asMedia p] \<and> n1 = n) \<or> (m1 = m \<and> n1 = n @ [p])" .
  show ?case
  proof (cases "L \<le> int (length m1)")
    case True
    with Cons.prems pp have res: "m' = m1" "n' = n1 @ ps" by simp_all
    from step show ?thesis
    proof
      assume "m1 = m @ [asMedia p] \<and> n1 = n"
      with res have "m' = m @ map asMedia [p] \<and> n' = n @ ps \<and> p # ps \<in> shuffles [p] ps"
        by (simp add: Cons_in_shuffles_iff)
      then show ?thesis by blast
    next
      assume "m1 = m \<and> n1 = n @ [p]"
      with res have "m' = m @ map asMedia [] \<and> n' = n @ (p # ps) \<and> p # ps \<in> shuffles [] (p # ps)"
        by simp
      then show ?thesis by blast
    qed
  next
    case False
    with Cons.prems pp have "for_posts L ps (m1, n1) = Inr (m', n')" by simp
    from Cons.IH [OF this] obtain om on where
      ih: "m' = m1 @ map asMedia om" "n' = n1 @ on" "ps \<in> shuffles om on" by blast
    from step show ?thesis
    proof
      assume "m1 = m @ [asMedia p] \<and> n1 = n"
      with ih have "m' = m @ map asMedia (p # om) \<and> n' = n @ on \<and> p # ps \<in> shuffles (p # om) on"
        by (simp add: Cons_in_shuffles_leftI)
      then show ?thesis by blast
    next
      assume "m1 = m \<and> n1 = n @ [p]"
      with ih have "m' = m @ map asMedia om \<and> n' = n @ (p # on) \<and> p # ps \<in> shuffles om (p # on)"
        by (simp add: Cons_in_shuffles_rightI)
      then show ?thesis by blast
    qed
  qed
qed

lemma delivered_simps [simp]:
  "delivered [] = []"
  "delivered (xs @ ys) = delivered xs @ delivered ys"
  "delivered (x # xs) = posts_of x @ delivered xs"
  by (simp_all add: delivered_def)

lemma posts_of_not_fetch: "\<not> is_fetch x \<Longrightarrow> posts_of x = []"
  by (cases x) simp_all

lemma delivered_none: "\<forall>x\<in>set xs. \<not> is_fetch x \<and> \<not> is_sleep x \<Longrightarrow> delivered xs = []"
  by (induction xs) (simp_all add: posts_of_not_fetch)

lemma quiet_delivered: "quiet evs \<Longrightarrow> delivered evs = []"
  by (induction evs) (simp_all add: quiet_def posts_of_not_fetch)

lemma partitioned_step:
  assumes "partitioned s"
    and "for_posts L posts (mediaPosts s, nonMediaPosts s) = Inr (mediaPosts s', nonMediaPosts s')"
    and "delivered (events s') = delivered (events s) @ posts"
  shows "partitioned s'"
proof -
  from assms(1) obtain orig where o: "mediaPosts s = map asMedia orig"
    "delivered (events s) \<in> shuffles orig (nonMediaPosts s)"
    by (auto simp: partitioned_def)
  from for_posts_shuffle [OF assms(2)] obtain om on where
    f: "mediaPosts s' = mediaPosts s @ map asMedia om" "nonMediaPosts s' = nonMediaPosts s @ on"
       "posts \<in> shuffles om on" by blast
  have "mediaPosts s' = map asMedia (orig @ om)" using o(1) f(1) by simp
  moreover have "delivered (events s') \<in> shuffles (orig @ om) (nonMediaPosts s')"
    using shuffles_append [OF o(2) f(3)] assms(3) f(2) by simp
  ultimately show ?thesis unfolding partitioned_def by blast
qed

lemma while_loop_partitioned:
  assumes "partitioned st"
  shows "case while_loop e t L b st of Inr s \<Rightarrow> partitioned s | Inl x \<Rightarrow> True"
proof (rule while_loop_rule [where I = partitioned
      and Q = "\<lambda>r. case r of Inr s \<Rightarrow> partitioned s | Inl x \<Rightarrow> True"])
  show "partitioned st" by (rule assms)
next
  fix s s'
  assume "partitioned s" "loop_body e t L b s = Continue s'"
  then show "partitioned s'"
    by (auto dest!: loop_body_ContinueD elim!: partitioned_step simp: delivered_none)
next
  fix s s'
  assume "partitioned s" "loop_body e t L b s = Break s'"
  then have "partitioned s'"
    by (auto dest!: loop_body_BreakD elim!: partitioned_step simp: delivered_none)
  then show "case Inr s' of Inr s \<Rightarrow> partitioned s | Inl (x :: error \<times> event list) \<Rightarrow> True"
    by simp
next
  fix s :: run_state
  assume "partitioned s"
  then show "case Inr s of Inr s \<Rightarrow> partitioned s | Inl (x :: error \<times> event list) \<Rightarrow> True"
    by simp
qed simp

lemma partitioned_initial: "quiet evs \<Longrightarrow> partitioned (initial evs)"
  by (simp add: partitioned_def quiet_delivered)

subsection \<open>Sleeps\<close>

lemma sleeps_after_fetch:
  "\<forall>x\<in>set rest. \<not> is_fetch x \<Longrightarrow>
   sleeps_after_last_fetch (xs @ Fetch u t r # rest) = length (filter is_sleep rest)"
proof -
  assume a: "\<forall>x\<in>set rest. \<not> is_fetch x"
  have "takeWhile (\<lambda>ev. \<not> is_fetch ev) (rev rest @ Fetch u t r # rev xs)
          = rev rest @ takeWhile (\<lambda>ev. \<not> is_fetch ev) (Fetch u t r # rev xs)"
    by (rule takeWhile_append2) (use a in auto)
  then have "takeWhile (\<lambda>ev. \<not> is_fetch ev) (rev rest @ Fetch u t r # rev xs) = rev rest"
    by simp
  then show ?thesis by (simp add: sleeps_after_last_fetch_def rev_filter [symmetric])
qed

lemma sleeps_after_status [simp]:
  "sleeps_after_last_fetch (xs @ [Status msg isError]) = sleeps_after_last_fetch xs"
  by (simp add: sleeps_after_last_fetch_def)

lemma quiet_sleeps: "quiet evs \<Longrightarrow> sleeps_after_last_fetch evs = 0"
proof -
  assume "quiet evs"
  then have "\<forall>x\<in>set (takeWhile (\<lambda>ev. \<not> is_fetch ev) (rev evs)). \<not> is_sleep x"
    by (auto simp: quiet_def dest: set_takeWhileD)
  then show ?thesis by (simp add: sleeps_after_last_fetch_def filter_empty_conv)
qed

lemma no_sleep_filter: "\<forall>x\<in>set rest. \<not> is_fetch x \<and> \<not> is_sleep x \<Longrightarrow> filter is_sleep rest = []"
  by (simp add: filter_empty_conv)

lemma while_loop_paced:
  assumes "paced L st"
  shows "paced_end L (final_events (while_loop e t L b st))"
proof (rule while_loop_rule [where I = "paced L" and Q = "\<lambda>r. paced_end L (final_events r)"])
  show "paced L st" by (rule assms)
next
  fix s s'
  assume "paced L s" "int (requestCount s) < maxRequests L" "loop_body e t L b s = Continue s'"
  then show "paced L s'"
    by (auto dest!: loop_body_ContinueD simp: paced_def fetch_count_none sleeps_after_fetch no_sleep_filter)
next
  fix s s'
  assume "paced L s" "loop_body e t L b s = Break s'"
  then show "paced_end L (final_events (Inr s'))"
    by (auto dest!: loop_body_BreakD simp: paced_end_def sleeps_after_fetch no_sleep_filter)
next
  fix s ex evs
  assume "paced L s" "loop_body e t L b s = Throw ex evs"
  then show "paced_end L (final_events (Inl (ex, evs)))"
    by (auto dest!: loop_body_ThrowD simp: paced_end_def sleeps_after_fetch)
next
  fix s :: run_state
  assume "paced L s" "\<not> (int (length (mediaPosts s)) < L \<and> int (requestCount s) < maxRequests L)"
  then show "paced_end L (final_events (Inr s))"
    by (auto simp: paced_def paced_end_def)
qed

lemma paced_initial: "quiet evs \<Longrightarrow> paced L (initial evs)"
  using maxRequests_ge_3 [of L] by (simp add: paced_def quiet_fetch_count quiet_sleeps)

lemma fetchPosts_paced: "paced_end L (eventsOut (fetchPosts e c s sub srt L tf))"
proof (cases e c s sub srt L tf rule: fetchPosts_cases)
  case (NoToken evs)
  then show ?thesis by (simp add: paced_end_def quiet_sleeps)
next
  case (Failed tok evs ex evs' msg)
  from while_loop_paced [OF paced_initial [OF Failed(1)], of L e tok "baseUrl sub srt L tf"] Failed(2,3)
  show ?thesis by (simp add: paced_end_def)
next
  case (Returned tok evs st msg)
  from while_loop_paced [OF paced_initial [OF Returned(1)], of L e tok "baseUrl sub srt L tf"] Returned(2,3)
  show ?thesis by (simp add: paced_end_def)
qed

lemma loop_body_Continue_sleep:
  assumes "loop_body e t L b st = Continue st'"
  shows "take (length (events st)) (events st') = events st \<and>
         filter is_sleep (drop (length (events st)) (events st')) = [Sleep 1000] \<and>
         last (events st') = Sleep 1000 \<and>
         int (length (mediaPosts st')) < L \<and> truthy (after st')"
  using assms by (auto dest!: loop_body_ContinueD simp: no_sleep_filter)

lemma loop_body_Break_no_sleep:
  assumes "loop_body e t L b st = Break st'"
  shows "take (length (events st)) (events st') = events st \<and>
         filter is_sleep (drop (length (events st)) (events st')) = []"
  using assms by (auto dest!: loop_body_BreakD simp: no_sleep_filter)

subsection \<open>Items and pages\<close>

lemma hasImageExt_Nil: "\<not> hasImageExt []"
  by (simp add: hasImageExt_def endsWith_def)

lemma previewUrl_no_preview: "preview p = None \<Longrightarrow> previewUrl p = []"
  by (simp add: previewUrl_def sourceUrl_def gifUrl_def firstImage_def)

lemma previewUrl_absent: "sourceUrl p = None \<Longrightarrow> gifUrl p = None \<Longrightarrow> previewUrl p = []"
  by (simp add: previewUrl_def)

lemma process_post_total: "url p = Some u \<Longrightarrow> \<exists>r. process_post limit p acc = Inr r"
  by (cases acc) (simp add: process_post_def Let_def)

lemma clampLimit_range: "1 \<le> clampLimit limitInput \<and> clampLimit limitInput \<le> 100"
  by (simp add: clampLimit_def)

lemma for_posts_limit_reached:
  "for_posts L pre (m, n) = Inr (m1, n1) \<Longrightarrow> int (length m) < L \<Longrightarrow> L \<le> int (length m1) \<Longrightarrow>
   for_posts L (pre @ rest) (m, n) = Inr (m1, n1 @ rest)"
proof (induction pre arbitrary: m n)
  case Nil
  then show ?case by simp
next
  case (Cons p pre)
  from Cons.prems(1) obtain m' n' where pp: "process_post L p (m, n) = Inr (m', n')"
    by (auto split: sum.splits prod.splits)
  show ?case
  proof (cases "L \<le> int (length m')")
    case True
    with Cons.prems(1) pp show ?thesis by simp
  next
    case False
    with Cons.prems(1) pp have "for_posts L pre (m', n') = Inr (m1, n1)" by simp
    from Cons.IH [OF this _ Cons.prems(3)] False pp show ?thesis by simp
  qed
qed

subsection \<open>Exceptions\<close>

lemma for_posts_Inl:
  "for_posts L ps acc = Inl ex \<Longrightarrow> \<exists>p\<in>set ps. url p = None"
proof (induction ps arbitrary: acc)
  case Nil
  then show ?case by simp
next
  case (Cons p ps)
  show ?case
  proof (cases "url p")
    case None
    then show ?thesis by simp
  next
    case (Some u)
    from process_post_total [OF Some, of L acc] obtain m n
      where pp: "process_post L p acc = Inr (m, n)" by (cases acc) auto
    with Cons.prems have "for_posts L ps (m, n) = Inl ex"
      by (auto split: if_splits)
    from Cons.IH [OF this] show ?thesis by simp
  qed
qed

lemma while_loop_Inl:
  "case while_loop e t L b st of
     Inl (ex, evs) \<Rightarrow> (\<exists>ev\<in>set evs. failed_fetch ev) \<or> (\<exists>p\<in>set (delivered evs). url p = None)
   | Inr s \<Rightarrow> True"
proof (rule while_loop_rule [where I = "\<lambda>s. True" and Q = "\<lambda>r. case r of
     Inl (ex, evs) \<Rightarrow> (\<exists>ev\<in>set evs. failed_fetch ev) \<or> (\<exists>p\<in>set (delivered evs). url p = None)
   | Inr s \<Rightarrow> True"])
  fix s ex evs
  assume "loop_body e t L b s = Throw ex evs"
  from loop_body_ThrowD [OF this] obtain u r where
    evs: "evs = events s @ [Fetch u t r]" and
    r: "\<not> is_listing r \<or> (\<exists>posts next. r = Listing posts next \<and>
               for_posts L posts (mediaPosts s, nonMediaPosts s) = Inl ex)" by blast
  from r have "(\<exists>ev\<in>set evs. failed_fetch ev) \<or> (\<exists>p\<in>set (delivered evs). url p = None)"
  proof
    assume "\<not> is_listing r"
    then have "failed_fetch (Fetch u t r)" by simp
    then show ?thesis unfolding evs by auto
  next
    assume "\<exists>posts next. r = Listing posts next \<and>
               for_posts L posts (mediaPosts s, nonMediaPosts s) = Inl ex"
    then obtain posts nxt where "r = Listing posts nxt"
      "for_posts L posts (mediaPosts s, nonMediaPosts s) = Inl ex" by blast
    with for_posts_Inl [of L posts _ ex] evs show ?thesis by auto
  qed
  then show "case Inl (ex, evs) of
     Inl (ex, evs) \<Rightarrow> (\<exists>ev\<in>set evs. failed_fetch ev) \<or> (\<exists>p\<in>set (delivered evs). url p = None)
   | Inr (s :: run_state) \<Rightarrow> True" by simp
qed simp_all

text \<open>
  The \<^verbatim>\<open>try\<close> block ends without an exception when no page fetch of the run fails
  and every delivered item has a \<^verbatim>\<open>url\<close>.
\<close>

lemma no_failure_no_exception:
  assumes "\<forall>ev\<in>set (eventsOut (fetchPosts e c s sub srt L tf)). \<not> failed_fetch ev"
    and "\<forall>p\<in>set (delivered (eventsOut (fetchPosts e c s sub srt L tf))). url p \<noteq> None"
  shows "fetchPosts_try e c s sub srt L tf = Inr (fetchPosts e c s sub srt L tf)"
proof (cases "fetchPosts_try e c s sub srt L tf")
  case (Inr out)
  then show ?thesis by (simp add: fetchPosts_def)
next
  case (Inl x)
  obtain ex evs' where x: "x = (ex, evs')" by (cases x)
  have out: "eventsOut (fetchPosts e c s sub srt L tf)
               = evs' @ [Status (''Error fetching posts: '' @ message ex) True]"
    using Inl x by (simp add: fetchPosts_def updateStatus_def)
  have "(\<exists>ev\<in>set evs'. failed_fetch ev) \<or> (\<exists>p\<in>set (delivered evs'). url p = None)"
  proof (cases e c s sub srt L tf rule: fetchPosts_try_cases)
    case (NoToken evs)
    with Inl show ?thesis by simp
  next
    case (Failed tok evs ex2 evs2)
    with Inl x have "ex2 = ex" "evs2 = evs'" by simp_all
    with while_loop_Inl [of e tok L "baseUrl sub srt L tf" "initial evs"] Failed(2)
    show ?thesis by simp
  next
    case (Returned tok evs st msg)
    with Inl show ?thesis by simp
  qed
  with assms out show ?thesis by auto
qed

subsection \<open>Failed page fetches\<close>

text \<open>
  C1, as the code has it. When a page fetch of a run fails (the transport fails or the answer
  carries an error field), the run ends there: the failed request is the last event of the
  log but for the error status, so the page is not fetched again, and no other fetch of the
  run failed. The lists that \<^verbatim>\<open>fetchPosts\<close> returns are both empty: the
  \<^verbatim>\<open>catch\<close> block of lines 136-139 returns two fresh empty arrays, and what the
  earlier pages had accumulated is dropped with the scope of the \<^verbatim>\<open>try\<close> block.
\<close>

theorem failed_fetch_returns_empty_lists:
  assumes "ev \<in> set (eventsOut (fetchPosts e c s sub srt L tf))"
    and "failed_fetch ev"
  shows "mediaPostsOut (fetchPosts e c s sub srt L tf) = [] \<and>
         nonMediaPostsOut (fetchPosts e c s sub srt L tf) = [] \<and>
         (\<exists>pre msg. eventsOut (fetchPosts e c s sub srt L tf) = pre @ [ev, Status msg True] \<and>
                     (\<forall>x\<in>set pre. \<not> failed_fetch x))"
proof (cases e c s sub srt L tf rule: fetchPosts_cases)
  case (NoToken evs)
  then show ?thesis using assms quiet_not_failed [of evs] by auto
next
  case (Failed tok evs ex evs' msg)
  from while_loop_failed_fetch [OF quiet_not_failed [OF Failed(1)], of e tok L "baseUrl sub srt L tf"]
    Failed(2)
  obtain pre ev' where pre: "evs' = pre @ [ev']" "\<forall>x\<in>set pre. \<not> failed_fetch x"
    by auto
  with assms Failed(3) have "ev = ev'" by auto
  with pre Failed(3) show ?thesis by simp
next
  case (Returned tok evs st msg)
  from while_loop_failed_fetch [OF quiet_not_failed [OF Returned(1)], of e tok L "baseUrl sub srt L tf"]
    Returned(2)
  have "\<forall>x\<in>set (events st). \<not> failed_fetch x" by simp
  with assms Returned(3) show ?thesis by auto
qed

theorem failed_fetch_returns_empty_lists_witness:
  "Fetch ''https://oauth.reddit.com/r/pics/best.json?limit=7&after=t3_c'' ''tok'' (ErrorField ''403'')
     \<in> set (eventsOut (fetchPosts failEnv ''id'' ''secret'' ''pics'' ''best'' 2 None)) \<and>
   failed_fetch (Fetch ''https://oauth.reddit.com/r/pics/best.json?limit=7&after=t3_c'' ''tok''
     (ErrorField ''403'')) \<and>
   mediaPostsOut (fetchPosts failEnv ''id'' ''secret'' ''pics'' ''best'' 2 None) = [] \<and>
   nonMediaPostsOut (fetchPosts failEnv ''id'' ''secret'' ''pics'' ''best'' 2 None) = []"
proof -
  have h1: "Fetch ''https://oauth.reddit.com/r/pics/best.json?limit=7&after=t3_c'' ''tok'' (ErrorField ''403'')
     \<in> set (eventsOut (fetchPosts failEnv ''id'' ''secret'' ''pics'' ''best'' 2 None))"
    by code_simp
  have h2: "failed_fetch (Fetch ''https://oauth.reddit.com/r/pics/best.json?limit=7&after=t3_c'' ''tok''
     (ErrorField ''403''))" by simp
  show ?thesis using failed_fetch_returns_empty_lists [OF h1 h2] h1 h2 by simp
qed

text \<open>
  C1 as stated fails. With a limit of 2, the first page of \<open>failEnv\<close> puts one item on
  each list; the second request is answered with an error field, and the run returns two
  empty lists instead of the two accumulated items.
\<close>

theorem failed_fetch_discards_accumulated_counterexample:
  "for_posts 2 [jpgPost, htmlPost] ([], []) = Inr ([jpgPost], [htmlPost]) \<and>
   filter is_fetch (eventsOut (fetchPosts failEnv ''id'' ''secret'' ''pics'' ''best'' 2 None)) =
     [Fetch ''https://oauth.reddit.com/r/pics/best.json?limit=7'' ''tok''
        (Listing [jpgPost, htmlPost] (Some ''t3_c'')),
      Fetch ''https://oauth.reddit.com/r/pics/best.json?limit=7&after=t3_c'' ''tok''
        (ErrorField ''403'')] \<and>
   mediaPostsOut (fetchPosts failEnv ''id'' ''secret'' ''pics'' ''best'' 2 None) = [] \<and>
   nonMediaPostsOut (fetchPosts failEnv ''id'' ''secret'' ''pics'' ''best'' 2 None) = []"
  by code_simp

subsection \<open>Classification\<close>

text \<open>
  C2, as the code has it. For an item whose \<^verbatim>\<open>url\<close> is a string, the
  classification of lines 63-99 never raises, whatever is missing of the preview; a missing
  preview, or a first image with neither source URL nor gif variant URL, gives the empty
  preview URL; and an item whose \<^verbatim>\<open>url\<close> is the empty string fails the first
  test and is decided by the preview URL alone: stored as media under the preview URL when
  that one has an image extension (and the media list is short of the limit), appended to the
  non-media list otherwise.
\<close>

theorem classification_total_when_url_present:
  assumes "url p = Some u"
  shows "(\<exists>r. process_post limit p (m, n) = Inr r) \<and>
         (preview p = None \<longrightarrow> previewUrl p = []) \<and>
         (sourceUrl p = None \<and> gifUrl p = None \<longrightarrow> previewUrl p = []) \<and>
         (u = [] \<longrightarrow>
            process_post limit p (m, n) =
              (if hasImageExt (splitQuery0 (toLowerCase (previewUrl p))) \<and> int (length m) < limit
               then Inr (m @ [p\<lparr>url := Some (previewUrl p)\<rparr>], n)
               else Inr (m, n @ [p])))"
proof -
  have "u = [] \<Longrightarrow> \<not> hasImageExt (splitQuery0 (toLowerCase u))"
    by (simp add: hasImageExt_Nil toLowerCase_def splitQuery0_def)
  then have "u = [] \<longrightarrow>
            process_post limit p (m, n) =
              (if hasImageExt (splitQuery0 (toLowerCase (previewUrl p))) \<and> int (length m) < limit
               then Inr (m @ [p\<lparr>url := Some (previewUrl p)\<rparr>], n)
               else Inr (m, n @ [p]))"
    using assms by (simp add: process_post_def Let_def)
  then show ?thesis
    using process_post_total [OF assms] previewUrl_no_preview previewUrl_absent by blast
qed

theorem classification_total_when_url_present_witness:
  "url emptyUrlPost = Some [] \<and> preview emptyUrlPost = None \<and>
   sourceUrl emptyUrlPost = None \<and> gifUrl emptyUrlPost = None \<and>
   previewUrl emptyUrlPost = [] \<and>
   process_post 1 emptyUrlPost ([], []) = Inr ([], [emptyUrlPost])"
proof -
  have h1: "url emptyUrlPost = Some []" by code_simp
  have h2: "preview emptyUrlPost = None" by code_simp
  have h3: "sourceUrl emptyUrlPost = None" by code_simp
  have h4: "gifUrl emptyUrlPost = None" by code_simp
  have h5: "\<not> hasImageExt (splitQuery0 (toLowerCase []))" by code_simp
  show ?thesis
    using classification_total_when_url_present [OF h1, of 1 "[]" "[]"] h1 h2 h3 h4 h5 by simp
qed

text \<open>
  C2 as stated fails for an item without \<^verbatim>\<open>url\<close>: line 64 calls
  \<^verbatim>\<open>toLowerCase\<close> on \<^verbatim>\<open>undefined\<close>, which raises, whereas the same item
  with the empty string as \<^verbatim>\<open>url\<close> is stored as media under its preview URL. The
  exception is caught by \<^verbatim>\<open>fetchPosts\<close>, which returns two empty lists although
  the page delivered the item.
\<close>

theorem missing_url_raises_counterexample:
  "process_post 1 noUrlPost ([], []) = Inl (TypeError ''Cannot read properties of undefined'') \<and>
   process_post 1 (noUrlPost\<lparr>url := Some []\<rparr>) ([], [])
     = Inr ([noUrlPost\<lparr>url := Some ''https://y.com/b.png?w=1''\<rparr>], []) \<and>
   delivered (eventsOut (fetchPosts noUrlEnv ''id'' ''secret'' ''pics'' ''best'' 1 None))
     = [noUrlPost] \<and>
   mediaPostsOut (fetchPosts noUrlEnv ''id'' ''secret'' ''pics'' ''best'' 1 None) = [] \<and>
   nonMediaPostsOut (fetchPosts noUrlEnv ''id'' ''secret'' ''pics'' ''best'' 1 None) = []"
  by code_simp

text \<open>
  C8. An item whose own URL fails the extension test and whose preview URL, lowercased and
  cut at the first question mark, ends in one of the four extensions is appended to the media
  list with its \<^verbatim>\<open>url\<close> field replaced by the preview URL as it was delivered
  (case and query string kept). The premise on the length of the media list is the guard of
  line 90; it holds whenever the code examines an item, since the \<^verbatim>\<open>while\<close>
  condition (line 48) and the test after each item (line 102) stop the iteration as soon as the
  media list holds \<open>limit\<close> items.
\<close>

theorem fallback_media_overwrites_url:
  "url p = Some u \<Longrightarrow> \<not> hasImageExt (splitQuery0 (toLowerCase u)) \<Longrightarrow>
   hasImageExt (splitQuery0 (toLowerCase (previewUrl p))) \<Longrightarrow>
   int (length m) < limit \<Longrightarrow>
   process_post limit p (m, n) = Inr (m @ [p\<lparr>url := Some (previewUrl p)\<rparr>], n)"
  by (simp add: process_post_def)

theorem fallback_media_overwrites_url_witness:
  "url previewPost = Some ''https://x.com/a.html'' \<and>
   \<not> hasImageExt (splitQuery0 (toLowerCase ''https://x.com/a.html'')) \<and>
   hasImageExt (splitQuery0 (toLowerCase (previewUrl previewPost))) \<and>
   int (length [jpgPost]) < 2 \<and>
   previewUrl previewPost = ''https://y.com/b.png?w=1'' \<and>
   process_post 2 previewPost ([jpgPost], [htmlPost]) =
     Inr ([jpgPost, previewPost\<lparr>url := Some ''https://y.com/b.png?w=1''\<rparr>], [htmlPost])"
proof -
  have h1: "url previewPost = Some ''https://x.com/a.html''" by code_simp
  have h2: "\<not> hasImageExt (splitQuery0 (toLowerCase ''https://x.com/a.html''))" by code_simp
  have h3: "hasImageExt (splitQuery0 (toLowerCase (previewUrl previewPost)))" by code_simp
  have h4: "int (length [jpgPost]) < 2" by simp
  have h5: "previewUrl previewPost = ''https://y.com/b.png?w=1''" by code_simp
  show ?thesis
    using fallback_media_overwrites_url [OF h1 h2 h3 h4, of "[htmlPost]"] h1 h2 h3 h5 by simp
qed

text \<open>
  C10. During fallback resolution, a first preview image whose source URL is present but
  empty is treated exactly as one whose source URL is absent: the preview URL is the source
  URL of the animated gif variant, and the empty string when that one is absent or empty
  (the \<^verbatim>\<open>||\<close> chain of lines 80-82 skips every falsy operand).
\<close>

theorem empty_source_url_as_absent:
  "sourceUrl p = Some [] \<Longrightarrow>
     previewUrl p = (case gifUrl p of Some g \<Rightarrow> g | None \<Rightarrow> []) \<and>
     (\<forall>q. sourceUrl q = None \<and> gifUrl q = gifUrl p \<longrightarrow> previewUrl q = previewUrl p)"
  by (auto simp: previewUrl_def split: option.splits)

theorem empty_source_url_as_absent_witness:
  "sourceUrl emptySourcePost = Some [] \<and>
   sourceUrl absentSourcePost = None \<and>
   gifUrl absentSourcePost = gifUrl emptySourcePost \<and>
   previewUrl emptySourcePost = ''https://y.com/c.gif?f=1'' \<and>
   previewUrl absentSourcePost = previewUrl emptySourcePost"
proof -
  have h: "sourceUrl emptySourcePost = Some []" by code_simp
  have g: "gifUrl emptySourcePost = Some ''https://y.com/c.gif?f=1''" by code_simp
  have hq: "sourceUrl absentSourcePost = None" by code_simp
  have gq: "gifUrl absentSourcePost = Some ''https://y.com/c.gif?f=1''" by code_simp
  show ?thesis using empty_source_url_as_absent [OF h] h g hq gq by simp
qed

subsection \<open>The item loop\<close>

text \<open>
  C4. For a limit \<open>L \<ge> 0\<close> (the caller passes one between 1 and 100, line 160), the
  media list never holds more than \<open>L\<close> items: the
  list that \<^verbatim>\<open>fetchPosts\<close> returns does not, and no step on an item (the only
  place where the media list grows) takes a media list of at most \<open>L\<close> items to a longer
  one than \<open>L\<close>. An item examined while the media list already holds \<open>L\<close> items is
  appended to the non-media list, whatever its URLs are.
\<close>

theorem media_list_never_exceeds_limit:
  assumes "0 \<le> L"
  shows "int (length (mediaPostsOut (fetchPosts e c s sub srt L tf))) \<le> L \<and>
         (int (length m) \<le> L \<and> process_post L p (m, n) = Inr (m', n') \<longrightarrow> int (length m') \<le> L) \<and>
         (L \<le> int (length m) \<and> url p \<noteq> None \<longrightarrow> process_post L p (m, n) = Inr (m, n @ [p]))"
proof -
  have "L \<le> int (length m) \<and> url p \<noteq> None \<longrightarrow> process_post L p (m, n) = Inr (m, n @ [p])"
    by (auto simp: process_post_def Let_def)
  then show ?thesis
    using fetchPosts_media_bound [OF assms] process_post_length by blast
qed

theorem media_list_never_exceeds_limit_witness:
  "(0::int) \<le> 1 \<and>
   mediaPostsOut (fetchPosts mediaEnv ''id'' ''secret'' ''pics'' ''best'' 1 None) = [jpgPost] \<and>
   int (length (mediaPostsOut (fetchPosts mediaEnv ''id'' ''secret'' ''pics'' ''best'' 1 None))) \<le> 1 \<and>
   int (length [jpgPost]) \<le> 1 \<and> (1::int) \<le> int (length [jpgPost]) \<and> url previewPost \<noteq> None \<and>
   process_post 1 previewPost ([jpgPost], [htmlPost]) = Inr ([jpgPost], [htmlPost] @ [previewPost])"
proof -
  have h0: "(0::int) \<le> 1" by simp
  have h1: "mediaPostsOut (fetchPosts mediaEnv ''id'' ''secret'' ''pics'' ''best'' 1 None) = [jpgPost]"
    by code_simp
  have h2: "url previewPost \<noteq> None" by code_simp
  show ?thesis
    using media_list_never_exceeds_limit [OF h0, of mediaEnv "''id''" "''secret''" "''pics''"
        "''best''" None "[jpgPost]" previewPost "[htmlPost]" "[jpgPost]" "[htmlPost, previewPost]"]
      h1 h2
    by simp
qed

text \<open>
  C7. When the media list reaches the limit at item \<open>p\<close> of a page (the items \<open>pre\<close>
  before it left the media list short of the limit), the items \<open>rest\<close> after \<open>p\<close> are
  appended to the non-media list as they are and in their order. They are not examined: the
  equation holds for every \<open>rest\<close>, also for items that would raise or that would be stored
  as media under another URL.
\<close>

theorem limit_reached_mid_page:
  assumes "for_posts limit pre acc = Inr (m1, n1)"
    and "int (length m1) < limit"
    and "process_post limit p (m1, n1) = Inr (m2, n2)"
    and "limit \<le> int (length m2)"
  shows "for_posts limit (pre @ p # rest) acc = Inr (m2, n2 @ rest)"
  using assms by (simp add: for_posts_append)

theorem limit_reached_mid_page_witness:
  "for_posts 1 [htmlPost] ([], []) = Inr ([], [htmlPost]) \<and>
   int (length ([] :: post list)) < 1 \<and>
   process_post 1 jpgPost ([], [htmlPost]) = Inr ([jpgPost], [htmlPost]) \<and>
   (1::int) \<le> int (length [jpgPost]) \<and>
   for_posts 1 ([htmlPost] @ jpgPost # [noUrlPost, previewPost, jpgPost]) ([], []) =
     Inr ([jpgPost], [htmlPost] @ [noUrlPost, previewPost, jpgPost])"
proof -
  have h1: "for_posts 1 [htmlPost] ([], []) = Inr ([], [htmlPost])" by code_simp
  have h2: "int (length ([] :: post list)) < 1" by simp
  have h3: "process_post 1 jpgPost ([], [htmlPost]) = Inr ([jpgPost], [htmlPost])" by code_simp
  have h4: "(1::int) \<le> int (length [jpgPost])" by simp
  show ?thesis
    using limit_reached_mid_page [OF h1 h2 h3 h4, of "[noUrlPost, previewPost, jpgPost]"] h1 h3
    by simp
qed

text \<open>
  C5, as the code has it. In a run whose \<^verbatim>\<open>try\<close> block ends without an
  exception, the items that the fetched pages delivered are an interleaving of the non-media
  list with the items behind the media list (\<open>asMedia\<close> of each is what the media list
  holds): every delivered item is on one of the two lists, and the non-media list keeps the
  arrival order, page after page and item after item.
\<close>

theorem non_media_holds_the_rest_in_order:
  assumes "fetchPosts_try e c s sub srt L tf = Inr out"
  shows "fetchPosts e c s sub srt L tf = out \<and>
         (\<exists>orig. mediaPostsOut out = map asMedia orig \<and>
                  delivered (eventsOut out) \<in> shuffles orig (nonMediaPostsOut out)) \<and>
         (\<forall>p\<in>set (delivered (eventsOut out)).
            asMedia p \<in> set (mediaPostsOut out) \<or> p \<in> set (nonMediaPostsOut out))"
proof -
  have eq: "fetchPosts e c s sub srt L tf = out"
    using assms by (simp add: fetchPosts_def)
  have ex: "\<exists>orig. mediaPostsOut out = map asMedia orig \<and>
                  delivered (eventsOut out) \<in> shuffles orig (nonMediaPostsOut out)"
  proof (cases e c s sub srt L tf rule: fetchPosts_try_cases)
    case (NoToken evs)
    with assms have "out = \<lparr>mediaPostsOut = [], nonMediaPostsOut = [], eventsOut = evs\<rparr>" by simp
    with NoToken(1) show ?thesis by (simp add: quiet_delivered)
  next
    case (Failed tok evs ex evs')
    with assms show ?thesis by simp
  next
    case (Returned tok evs st msg)
    from while_loop_partitioned [OF partitioned_initial [OF Returned(1)], of e tok L "baseUrl sub srt L tf"]
      Returned(2)
    have "partitioned st" by simp
    moreover from assms Returned(3) have "out = \<lparr>mediaPostsOut = mediaPosts st,
        nonMediaPostsOut = nonMediaPosts st, eventsOut = events st @ [Status msg False]\<rparr>" by simp
    ultimately show ?thesis by (simp add: partitioned_def)
  qed
  then obtain orig where o: "mediaPostsOut out = map asMedia orig"
    "delivered (eventsOut out) \<in> shuffles orig (nonMediaPostsOut out)" by blast
  have "\<forall>p\<in>set (delivered (eventsOut out)).
            asMedia p \<in> set (mediaPostsOut out) \<or> p \<in> set (nonMediaPostsOut out)"
    using set_shuffles [OF o(2)] o(1) by auto
  with eq ex show ?thesis by blast
qed

theorem non_media_holds_the_rest_in_order_witness:
  "fetchPosts_try mediaEnv ''id'' ''secret'' ''pics'' ''best'' 3 None
     = Inr (fetchPosts mediaEnv ''id'' ''secret'' ''pics'' ''best'' 3 None) \<and>
   delivered (eventsOut (fetchPosts mediaEnv ''id'' ''secret'' ''pics'' ''best'' 3 None))
     = [htmlPost, jpgPost, previewPost, htmlPost, jpgPost, previewPost] \<and>
   mediaPostsOut (fetchPosts mediaEnv ''id'' ''secret'' ''pics'' ''best'' 3 None)
     = [jpgPost, previewPost\<lparr>url := Some ''https://y.com/b.png?w=1''\<rparr>, jpgPost] \<and>
   nonMediaPostsOut (fetchPosts mediaEnv ''id'' ''secret'' ''pics'' ''best'' 3 None)
     = [htmlPost, htmlPost, previewPost] \<and>
   (asMedia htmlPost
      \<in> set (mediaPostsOut (fetchPosts mediaEnv ''id'' ''secret'' ''pics'' ''best'' 3 None)) \<or>
    htmlPost
      \<in> set (nonMediaPostsOut (fetchPosts mediaEnv ''id'' ''secret'' ''pics'' ''best'' 3 None)))"
proof -
  have h: "fetchPosts_try mediaEnv ''id'' ''secret'' ''pics'' ''best'' 3 None
     = Inr (fetchPosts mediaEnv ''id'' ''secret'' ''pics'' ''best'' 3 None)"
    by code_simp
  have d: "delivered (eventsOut (fetchPosts mediaEnv ''id'' ''secret'' ''pics'' ''best'' 3 None))
     = [htmlPost, jpgPost, previewPost, htmlPost, jpgPost, previewPost]"
    by code_simp
  have m: "mediaPostsOut (fetchPosts mediaEnv ''id'' ''secret'' ''pics'' ''best'' 3 None)
     = [jpgPost, previewPost\<lparr>url := Some ''https://y.com/b.png?w=1''\<rparr>, jpgPost]"
    by code_simp
  have n: "nonMediaPostsOut (fetchPosts mediaEnv ''id'' ''secret'' ''pics'' ''best'' 3 None)
     = [htmlPost, htmlPost, previewPost]"
    by code_simp
  have "htmlPost
      \<in> set (delivered (eventsOut (fetchPosts mediaEnv ''id'' ''secret'' ''pics'' ''best'' 3 None)))"
    unfolding d by simp
  with non_media_holds_the_rest_in_order [OF h]
  have "asMedia htmlPost
      \<in> set (mediaPostsOut (fetchPosts mediaEnv ''id'' ''secret'' ''pics'' ''best'' 3 None)) \<or>
    htmlPost
      \<in> set (nonMediaPostsOut (fetchPosts mediaEnv ''id'' ''secret'' ''pics'' ''best'' 3 None))"
    by blast
  with h d m n show ?thesis by blast
qed

text \<open>
  C5 as stated fails in a run that ends with an exception: the first page of
  \<open>offlineEnv\<close> delivers an item without image, the second request fails, and the item is
  on neither of the returned lists.
\<close>

theorem failed_run_loses_delivered_items_counterexample:
  "delivered (eventsOut (fetchPosts offlineEnv ''id'' ''secret'' ''pics'' ''best'' 1 None))
     = [htmlPost] \<and>
   mediaPostsOut (fetchPosts offlineEnv ''id'' ''secret'' ''pics'' ''best'' 1 None) = [] \<and>
   nonMediaPostsOut (fetchPosts offlineEnv ''id'' ''secret'' ''pics'' ''best'' 1 None) = []"
  by code_simp

subsection \<open>The request budget\<close>

text \<open>
  C3 fails on the code. With a limit of 1 no run issues more than three page fetches,
  whatever the operator answers. On pages without image and with an operator who answers the
  prompt with "continue", the run issues three page fetches and no fourth one: the prompt
  comes up in the third pass, after which \<^verbatim>\<open>requestCount\<close> is 3 and the
  condition \<^verbatim>\<open>requestCount < maxRequests\<close> of line 48 ends the loop. The
  operator's answer is the last request-or-prompt event of the log.
\<close>

theorem stall_continue_stops_at_budget:
  "fetch_count (eventsOut (fetchPosts e c s sub srt 1 tf)) \<le> 3 \<and>
   fetch_count (eventsOut (fetchPosts stallEnv ''id'' ''secret'' ''pics'' ''best'' 1 None)) = 3 \<and>
   filter (\<lambda>ev. is_fetch ev \<or> is_confirm ev)
      (eventsOut (fetchPosts stallEnv ''id'' ''secret'' ''pics'' ''best'' 1 None)) =
     [Fetch ''https://oauth.reddit.com/r/pics/best.json?limit=6'' ''tok''
        (Listing [htmlPost] (Some ''t3_a'')),
      Fetch ''https://oauth.reddit.com/r/pics/best.json?limit=6&after=t3_a'' ''tok''
        (Listing [htmlPost] (Some ''t3_a'')),
      Fetch ''https://oauth.reddit.com/r/pics/best.json?limit=6&after=t3_a'' ''tok''
        (Listing [htmlPost] (Some ''t3_a'')),
      Confirm True] \<and>
   mediaPostsOut (fetchPosts stallEnv ''id'' ''secret'' ''pics'' ''best'' 1 None) = []"
proof -
  have "fetch_count (eventsOut (fetchPosts e c s sub srt 1 tf)) \<le> 3"
    using fetchPosts_fetch_bound [of e c s sub srt 1 tf] by (simp add: maxRequests_def)
  moreover have
    "fetch_count (eventsOut (fetchPosts stallEnv ''id'' ''secret'' ''pics'' ''best'' 1 None)) = 3"
    by code_simp
  moreover have "filter (\<lambda>ev. is_fetch ev \<or> is_confirm ev)
      (eventsOut (fetchPosts stallEnv ''id'' ''secret'' ''pics'' ''best'' 1 None)) =
     [Fetch ''https://oauth.reddit.com/r/pics/best.json?limit=6'' ''tok''
        (Listing [htmlPost] (Some ''t3_a'')),
      Fetch ''https://oauth.reddit.com/r/pics/best.json?limit=6&after=t3_a'' ''tok''
        (Listing [htmlPost] (Some ''t3_a'')),
      Fetch ''https://oauth.reddit.com/r/pics/best.json?limit=6&after=t3_a'' ''tok''
        (Listing [htmlPost] (Some ''t3_a'')),
      Confirm True]"
    by code_simp
  moreover have
    "mediaPostsOut (fetchPosts stallEnv ''id'' ''secret'' ''pics'' ''best'' 1 None) = []"
    by code_simp
  ultimately show ?thesis by blast
qed

text \<open>
  C6. The number of page fetches of a run is at most the budget
  \<open>B = (if L = 1 then 3 else max 3 (L * 3))\<close>, hence also at most \<open>B\<close> plus the number
  of continuations that the operator approved when \<open>L = 1\<close>; and a pass through the loop
  body, which runs only while the request counter is below \<open>B\<close>, never decreases the
  counter and leaves it at most \<open>B\<close>.
\<close>

theorem request_budget_respected:
  "int (fetch_count (eventsOut (fetchPosts e c s sub srt L tf))) \<le> maxRequests L \<and>
   int (fetch_count (eventsOut (fetchPosts e c s sub srt L tf)))
     \<le> maxRequests L
        + (if L = 1 then int (approved (eventsOut (fetchPosts e c s sub srt L tf))) else 0) \<and>
   (int (requestCount st) < maxRequests L \<and>
    (loop_body e t L b st = Continue st' \<or> loop_body e t L b st = Break st') \<longrightarrow>
      requestCount st \<le> requestCount st' \<and> int (requestCount st') \<le> maxRequests L)"
  using fetchPosts_fetch_bound [of e c s sub srt L tf] loop_body_requestCount [of st L e t b st']
  by auto

theorem request_budget_respected_witness:
  "int (requestCount (initial [])) < maxRequests 1 \<and>
   loop_body stallEnv ''tok'' 1 ''u'' (initial []) =
     Continue \<lparr>mediaPosts = [], nonMediaPosts = [htmlPost], after = Some ''t3_a'',
               requestCount = 1,
               events = [Fetch ''u'' ''tok'' (Listing [htmlPost] (Some ''t3_a'')),
                         Status ''Fetched 0/1 image posts...'' False, Sleep 1000]\<rparr> \<and>
   requestCount (initial []) \<le> 1 \<and> (1::int) \<le> maxRequests 1 \<and>
   int (fetch_count (eventsOut (fetchPosts stallEnv ''id'' ''secret'' ''pics'' ''best'' 1 None)))
     \<le> maxRequests 1"
proof -
  have h1: "int (requestCount (initial [])) < maxRequests 1" by code_simp
  have h2: "loop_body stallEnv ''tok'' 1 ''u'' (initial []) =
     Continue \<lparr>mediaPosts = [], nonMediaPosts = [htmlPost], after = Some ''t3_a'',
               requestCount = 1,
               events = [Fetch ''u'' ''tok'' (Listing [htmlPost] (Some ''t3_a'')),
                         Status ''Fetched 0/1 image posts...'' False, Sleep 1000]\<rparr>"
    by code_simp
  show ?thesis
    using request_budget_respected [of stallEnv "''id''" "''secret''" "''pics''" "''best''" 1 None
        "initial []" "''tok''" "''u''"
        "\<lparr>mediaPosts = [], nonMediaPosts = [htmlPost], after = Some ''t3_a'',
               requestCount = 1,
               events = [Fetch ''u'' ''tok'' (Listing [htmlPost] (Some ''t3_a'')),
                         Status ''Fetched 0/1 image posts...'' False, Sleep 1000]\<rparr>"] h1 h2
    by simp
qed

subsection \<open>The delay between requests\<close>

text \<open>
  C9, as the code has it. A pass through the loop body sleeps once, for 1000 ms and as its
  last action, exactly when it reaches the end of the body: then the media list is short of
  the limit and the next cursor is not empty, but the request counter has not been compared
  with the budget. A pass that leaves the loop by \<^verbatim>\<open>break\<close> does not sleep. So at
  most one sleep follows the last page fetch of a run, and one does only when the number of
  page fetches has reached the budget.
\<close>

theorem sleep_follows_every_cursor_advance:
  "(loop_body e t L b st = Continue st' \<longrightarrow>
      take (length (events st)) (events st') = events st \<and>
      filter is_sleep (drop (length (events st)) (events st')) = [Sleep 1000] \<and>
      last (events st') = Sleep 1000 \<and>
      int (length (mediaPosts st')) < L \<and> truthy (after st')) \<and>
   (loop_body e2 t2 L2 b2 st2 = Break st2' \<longrightarrow>
      take (length (events st2)) (events st2') = events st2 \<and>
      filter is_sleep (drop (length (events st2)) (events st2')) = []) \<and>
   sleeps_after_last_fetch (eventsOut (fetchPosts e c s sub srt L tf)) \<le> 1 \<and>
   (sleeps_after_last_fetch (eventsOut (fetchPosts e c s sub srt L tf)) = 1 \<longrightarrow>
      int (fetch_count (eventsOut (fetchPosts e c s sub srt L tf))) = maxRequests L)"
  using loop_body_Continue_sleep [of e t L b st st']
    loop_body_Break_no_sleep [of e2 t2 L2 b2 st2 st2']
    fetchPosts_paced [of L e c s sub srt tf]
  by (simp add: paced_end_def)

theorem sleep_follows_every_cursor_advance_witness:
  "loop_body stallEnv ''tok'' 2 ''u'' ((initial [])\<lparr>requestCount := 5\<rparr>) =
     Continue \<lparr>mediaPosts = [], nonMediaPosts = [htmlPost], after = Some ''t3_a'',
               requestCount = 6,
               events = [Fetch ''u'' ''tok'' (Listing [htmlPost] (Some ''t3_a'')),
                         Status ''Fetched 0/2 image posts...'' False, Sleep 1000]\<rparr> \<and>
   \<not> (6 < maxRequests 2) \<and>
   loop_body mediaEnv ''tok'' 1 ''u'' (initial []) =
     Break \<lparr>mediaPosts = [jpgPost], nonMediaPosts = [htmlPost, previewPost], after = Some [],
            requestCount = 0,
            events = [Fetch ''u'' ''tok'' (Listing [htmlPost, jpgPost, previewPost] (Some ''t3_b''))]\<rparr> \<and>
   sleeps_after_last_fetch
     (eventsOut (fetchPosts stallEnv ''id'' ''secret'' ''pics'' ''best'' 2 None)) = 1 \<and>
   int (fetch_count (eventsOut (fetchPosts stallEnv ''id'' ''secret'' ''pics'' ''best'' 2 None)))
     = maxRequests 2"
proof -
  have h1: "loop_body stallEnv ''tok'' 2 ''u'' ((initial [])\<lparr>requestCount := 5\<rparr>) =
     Continue \<lparr>mediaPosts = [], nonMediaPosts = [htmlPost], after = Some ''t3_a'',
               requestCount = 6,
               events = [Fetch ''u'' ''tok'' (Listing [htmlPost] (Some ''t3_a'')),
                         Status ''Fetched 0/2 image posts...'' False, Sleep 1000]\<rparr>"
    by code_simp
  have h2: "loop_body mediaEnv ''tok'' 1 ''u'' (initial []) =
     Break \<lparr>mediaPosts = [jpgPost], nonMediaPosts = [htmlPost, previewPost], after = Some [],
            requestCount = 0,
            events = [Fetch ''u'' ''tok'' (Listing [htmlPost, jpgPost, previewPost] (Some ''t3_b''))]\<rparr>"
    by code_simp
  have h3: "sleeps_after_last_fetch
     (eventsOut (fetchPosts stallEnv ''id'' ''secret'' ''pics'' ''best'' 2 None)) = 1"
    by code_simp
  have h4: "\<not> (6 < maxRequests 2)" by code_simp
  show ?thesis
    using sleep_follows_every_cursor_advance [of stallEnv "''tok''" 2 "''u''"
        "(initial [])\<lparr>requestCount := 5\<rparr>"
        "\<lparr>mediaPosts = [], nonMediaPosts = [htmlPost], after = Some ''t3_a'',
               requestCount = 6,
               events = [Fetch ''u'' ''tok'' (Listing [htmlPost] (Some ''t3_a'')),
                         Status ''Fetched 0/2 image posts...'' False, Sleep 1000]\<rparr>"
        mediaEnv "''tok''" 1 "''u''" "initial []"
        "\<lparr>mediaPosts = [jpgPost], nonMediaPosts = [htmlPost, previewPost], after = Some [],
            requestCount = 0,
            events = [Fetch ''u'' ''tok'' (Listing [htmlPost, jpgPost, previewPost] (Some ''t3_b''))]\<rparr>"
        "''id''" "''secret''" "''pics''" "''best''" None]
      h1 h2 h3 h4
    by simp
qed

text \<open>
  C9 as stated fails. With a limit of 2 the budget is 6; on pages without image the sixth
  page fetch is followed by the progress status and the sleep, and then the loop condition
  fails and the run returns.
\<close>

theorem sleep_after_final_fetch_counterexample:
  "fetch_count (eventsOut (fetchPosts stallEnv ''id'' ''secret'' ''pics'' ''best'' 2 None)) = 6 \<and>
   drop 19 (eventsOut (fetchPosts stallEnv ''id'' ''secret'' ''pics'' ''best'' 2 None)) =
     [Fetch ''https://oauth.reddit.com/r/pics/best.json?limit=7&after=t3_a'' ''tok''
        (Listing [htmlPost] (Some ''t3_a'')),
      Status ''Fetched 0/2 image posts...'' False,
      Sleep 1000,
      Status ''Successfully fetched 0 image posts'' False]"
  by code_simp

end
